theory Spec2Isabelle
  imports Complex_Main
begin

section \<open>Python lists and loops\<close>

text \<open>
  The partition array \<open>IP\<close> of the generators is a Python list of 80 unbounded integers.
  A subscript outside the list raises; a negative subscript counts from the end.
\<close>

datatype error = IndexError | ZeroDivisionError | ValueError

definition py_index :: "'a list \<Rightarrow> int \<Rightarrow> error + nat" where
  "py_index xs i =
     (if 0 \<le> i \<and> i < int (length xs) then Inr (nat i)
      else if - int (length xs) \<le> i \<and> i < 0 then Inr (nat (i + int (length xs)))
      else Inl IndexError)"

definition py_get :: "'a list \<Rightarrow> int \<Rightarrow> error + 'a" where
  "py_get xs i = (case py_index xs i of Inl e \<Rightarrow> Inl e | Inr j \<Rightarrow> Inr (xs ! j))"

definition py_set :: "'a list \<Rightarrow> int \<Rightarrow> 'a \<Rightarrow> error + 'a list" where
  "py_set xs i v = (case py_index xs i of Inl e \<Rightarrow> Inl e | Inr j \<Rightarrow> Inr (xs[j := v]))"

text \<open>\<open>range(a, b)\<close>: the integers from \<open>a\<close> up to \<open>b - 1\<close>, none when \<open>b \<le> a\<close>.\<close>

definition py_range :: "int \<Rightarrow> int \<Rightarrow> int list" where
  "py_range a b = [a..b - 1]"

text \<open>A \<open>for\<close> loop whose body may raise: the first exception ends the loop.\<close>

fun for_loop :: "'i list \<Rightarrow> ('i \<Rightarrow> 's \<Rightarrow> error + 's) \<Rightarrow> 's \<Rightarrow> error + 's" where
  "for_loop [] body s = Inr s"
| "for_loop (i # rest) body s =
     (case body i s of Inl e \<Rightarrow> Inl e | Inr s' \<Rightarrow> for_loop rest body s')"

section \<open>The transition of the partition generators\<close>

text \<open>
  \<open>partitions_file.py\<close>, \<open>partions_file2.py\<close> (\<open>main\<close>, \<open>advanced_main\<close>) and
  \<open>00_create_partitions_code.py\<close> share one loop body, with \<open>N\<close> the loop variable of
  \<open>range(1, 81)\<close> or the constant 80.

  \<open>J = 0; while J < 80 and IP[J] > 1: J += 1\<close>
\<close>

function scan_J :: "int list \<Rightarrow> nat \<Rightarrow> error + nat" where
  "scan_J IP J =
     (if J < 80
      then (case py_get IP (int J) of
              Inl e \<Rightarrow> Inl e
            | Inr v \<Rightarrow> if v > 1 then scan_J IP (J + 1) else Inr J)
      else Inr J)"
  by pat_completeness auto
termination
  by (relation "measure (\<lambda>(IP, J). 80 - J)") auto

declare scan_J.simps [simp del]

text \<open>
  \<open>for i in range(count): if part_to_modify + i < 80: IP[part_to_modify + i] = new_value\<close>
\<close>

definition fill_parts :: "nat \<Rightarrow> int \<Rightarrow> int \<Rightarrow> int list \<Rightarrow> error + int list" where
  "fill_parts part_to_modify count new_value IP =
     for_loop (py_range 0 count)
       (\<lambda>i IP. if int part_to_modify + i < 80
                then py_set IP (int part_to_modify + i) new_value
                else Inr IP)
       IP"

text \<open>\<open>if part_to_modify + count < 80: IP[part_to_modify + count] = remainder\<close>\<close>

definition store_remainder :: "nat \<Rightarrow> int \<Rightarrow> int \<Rightarrow> int list \<Rightarrow> error + int list" where
  "store_remainder part_to_modify count remainder IP =
     (if int part_to_modify + count < 80
      then py_set IP (int part_to_modify + count) remainder
      else Inr IP)"

text \<open>\<open>for i in range(next_position, 80): IP[i] = 0\<close>\<close>

definition zero_rest :: "int \<Rightarrow> int list \<Rightarrow> error + int list" where
  "zero_rest next_position IP =
     for_loop (py_range next_position 80) (\<lambda>i IP. py_set IP i 0) IP"

text \<open>
  The first half of the body of \<open>while True\<close>, up to \<open>remainder = remaining % new_value\<close>:
  \<open>None\<close> is the \<open>break\<close> at \<open>J == 0\<close>, otherwise the values of
  \<open>(part_to_modify, new_value, count, remainder)\<close>. \<open>sum(IP[:part_to_modify])\<close> is a
  slice with a bound that is never negative here; \<open>//\<close> and \<open>%\<close> round down, as
  \<open>div\<close> and \<open>mod\<close> on \<open>int\<close> do, and raise on a zero divisor.
\<close>

definition step_locals :: "int \<Rightarrow> int list \<Rightarrow> error + (nat \<times> int \<times> int \<times> int) option" where
  "step_locals N IP =
     (case scan_J IP 0 of
        Inl e \<Rightarrow> Inl e
      | Inr J \<Rightarrow>
          if J = 0 then Inr None
          else
            let part_to_modify = J - 1;
                sum_before = sum_list (take part_to_modify IP);
                remaining = N - sum_before
            in (case py_get IP (int part_to_modify) of
                  Inl e \<Rightarrow> Inl e
                | Inr current_value \<Rightarrow>
                    let new_value = current_value - 1
                    in if new_value = 0 then Inl ZeroDivisionError
                       else Inr (Some (part_to_modify, new_value,
                                       remaining div new_value, remaining mod new_value))))"

text \<open>The second half: the three updates of \<open>IP\<close>, in the order of the source.\<close>

definition update_partition :: "nat \<Rightarrow> int \<Rightarrow> int \<Rightarrow> int \<Rightarrow> int list \<Rightarrow> error + int list" where
  "update_partition part_to_modify new_value count remainder IP =
     (case fill_parts part_to_modify count new_value IP of
        Inl e \<Rightarrow> Inl e
      | Inr IP1 \<Rightarrow>
          (case store_remainder part_to_modify count remainder IP1 of
             Inl e \<Rightarrow> Inl e
           | Inr IP2 \<Rightarrow>
               let next_position =
                     int part_to_modify + count + (if remainder > 0 then 1 else 0)
               in zero_rest next_position IP2))"

datatype outcome = Terminal | Next "int list"

text \<open>
  One pass through the body of \<open>while True\<close>: \<open>Terminal\<close> is the \<open>break\<close>,
  \<open>Next IP'\<close> the array as it is when the pass writes its record.
\<close>

definition transition :: "int \<Rightarrow> int list \<Rightarrow> error + outcome" where
  "transition N IP =
     (case step_locals N IP of
        Inl e \<Rightarrow> Inl e
      | Inr None \<Rightarrow> Inr Terminal
      | Inr (Some (part_to_modify, new_value, count, remainder)) \<Rightarrow>
          (case update_partition part_to_modify new_value count remainder IP of
             Inl e \<Rightarrow> Inl e
           | Inr IP' \<Rightarrow> Inr (Next IP')))"

text \<open>\<open>IP = [N] + [0] * 79\<close>\<close>

definition initial :: "int \<Rightarrow> int list" where
  "initial N = [N] @ replicate 79 0"

text \<open>
  The \<open>while True\<close> loop. \<open>out\<close> is what has been written so far, oldest first (the
  printed lines of \<open>partitions_file.py\<close>, the \<open>IP\<close> columns of the CSV rows of
  \<open>partions_file2.py\<close>). \<open>None\<close>: the loop does not return.
\<close>

partial_function (option) generate ::
  "int \<Rightarrow> int list \<Rightarrow> int list list \<Rightarrow> (error + int list list) option" where
  "generate N IP out =
     (case transition N IP of
        Inl e \<Rightarrow> Some (Inl e)
      | Inr Terminal \<Rightarrow> Some (Inr out)
      | Inr (Next IP') \<Rightarrow> generate N IP' (out @ [IP']))"

declare generate.simps [code]

text \<open>The body of \<open>for N in range(1, 81)\<close>: the first record, then the loop.\<close>

definition enumerate_partitions :: "int \<Rightarrow> (error + int list list) option" where
  "enumerate_partitions N = generate N (initial N) [initial N]"

text \<open>\<open>non_zero_parts = [val for val in IP if val > 0]\<close>\<close>

definition non_zero_parts :: "int list \<Rightarrow> int list" where
  "non_zero_parts IP = filter (\<lambda>val. val > 0) IP"

section \<open>The generator for 80 with its database\<close>

text \<open>
  \<open>generate_n80_partitions_sqlite_only\<close> of \<open>00_create_partitions_code.py\<close>. A row of
  the table \<open>partitions\<close> is \<open>(partition_text, part_count, largest_part)\<close>; the text
  \<open>" ".join(str(val) ...)\<close> is kept as the list of parts it prints. \<open>max\<close> of an empty
  list raises.
\<close>

type_synonym partition_row = "int list \<times> nat \<times> int"

definition make_row :: "int list \<Rightarrow> error + partition_row" where
  "make_row IP =
     (let parts_found = non_zero_parts IP;
          part_count = length parts_found
      in if parts_found = [] then Inl ValueError
         else Inr (parts_found, part_count, fold max (tl parts_found) (hd parts_found)))"

text \<open>
  The connection: the rows inserted since the last \<open>commit\<close> and the rows that are
  committed.
\<close>

record connection =
  pending :: "partition_row list"
  committed :: "partition_row list"

definition insert_row :: "partition_row \<Rightarrow> connection \<Rightarrow> connection" where
  "insert_row r conn = conn\<lparr>pending := pending conn @ [r]\<rparr>"

definition commit :: "connection \<Rightarrow> connection" where
  "commit conn = \<lparr>pending = [], committed = committed conn @ pending conn\<rparr>"

text \<open>
  The variables of the loop, \<open>array\<close> for \<open>IP\<close>. \<open>clock k\<close> is what the call number
  \<open>k\<close> of \<open>time.time()\<close> returns, counted from 0: call 0 sets \<open>start_time\<close>, call 1
  \<open>last_print_time\<close>, and the pass that raises \<open>partition_count\<close> to \<open>c\<close> makes call
  \<open>c\<close>. Readings are real numbers of seconds.
\<close>

record generator =
  array :: "int list"
  partition_count :: nat
  last_print_time :: real
  conn :: connection

text \<open>Lines 28 to 45: the first array, its row, and the counters.\<close>

definition generator_start :: "(nat \<Rightarrow> real) \<Rightarrow> partition_row list \<Rightarrow> error + generator" where
  "generator_start clock existing =
     (case make_row (initial 80) of
        Inl e \<Rightarrow> Inl e
      | Inr r \<Rightarrow>
          Inr \<lparr>array = initial 80, partition_count = 1, last_print_time = clock 1,
               conn = insert_row r \<lparr>pending = [], committed = existing\<rparr>\<rparr>)"

text \<open>
  One pass of \<open>while True\<close>, lines 51 to 115; \<open>None\<close> is the \<open>break\<close>. The \<open>commit\<close> of
  line 114 stands inside the branch of line 101.
\<close>

definition generator_pass :: "(nat \<Rightarrow> real) \<Rightarrow> generator \<Rightarrow> error + generator option" where
  "generator_pass clock g =
     (case transition 80 (array g) of
        Inl e \<Rightarrow> Inl e
      | Inr Terminal \<Rightarrow> Inr None
      | Inr (Next IP') \<Rightarrow>
          (case make_row IP' of
             Inl e \<Rightarrow> Inl e
           | Inr r \<Rightarrow>
               let conn1 = insert_row r (conn g);
                   count1 = partition_count g + 1;
                   current_time = clock count1
               in if current_time - last_print_time g \<ge> 10
                  then Inr (Some \<lparr>array = IP', partition_count = count1,
                                  last_print_time = current_time,
                                  conn = (if count1 mod 100000 = 0 then commit conn1 else conn1)\<rparr>)
                  else Inr (Some \<lparr>array = IP', partition_count = count1,
                                  last_print_time = last_print_time g, conn = conn1\<rparr>)))"

partial_function (option) generator_loop ::
  "(nat \<Rightarrow> real) \<Rightarrow> generator \<Rightarrow> (error + generator) option" where
  "generator_loop clock g =
     (case generator_pass clock g of
        Inl e \<Rightarrow> Some (Inl e)
      | Inr None \<Rightarrow> Some (Inr g)
      | Inr (Some g') \<Rightarrow> generator_loop clock g')"

declare generator_loop.simps [code]

text \<open>The whole function: start, loop, and the \<open>commit\<close> of line 118.\<close>

definition generate_n80_partitions_sqlite_only ::
  "(nat \<Rightarrow> real) \<Rightarrow> partition_row list \<Rightarrow> (error + connection) option" where
  "generate_n80_partitions_sqlite_only clock existing =
     (case generator_start clock existing of
        Inl e \<Rightarrow> Some (Inl e)
      | Inr g \<Rightarrow>
          (case generator_loop clock g of
             None \<Rightarrow> None
           | Some (Inl e) \<Rightarrow> Some (Inl e)
           | Some (Inr g') \<Rightarrow> Some (Inr (commit (conn g')))))"

text \<open>The variables after \<open>i\<close> passes; \<open>None\<close> when the loop has ended before.\<close>

fun generator_after :: "(nat \<Rightarrow> real) \<Rightarrow> partition_row list \<Rightarrow> nat \<Rightarrow> error + generator option" where
  "generator_after clock existing 0 =
     (case generator_start clock existing of Inl e \<Rightarrow> Inl e | Inr g \<Rightarrow> Inr (Some g))"
| "generator_after clock existing (Suc i) =
     (case generator_after clock existing i of
        Inl e \<Rightarrow> Inl e
      | Inr None \<Rightarrow> Inr None
      | Inr (Some g) \<Rightarrow> generator_pass clock g)"

section \<open>The sampler\<close>

text \<open>
  \<open>random_sample_sqlite\<close> of \<open>02_random_sampling.py\<close> runs
  \<open>SELECT * FROM partitions ORDER BY RANDOM() LIMIT 100000\<close>. The engine draws one key per
  row, sorts the rows by their keys and keeps the first rows up to the limit. \<open>rand i\<close> is
  the key drawn for row \<open>i\<close> of the table; the function takes no seed.
\<close>

definition order_by_random_limit :: "(nat \<Rightarrow> int) \<Rightarrow> nat \<Rightarrow> 'r list \<Rightarrow> 'r list" where
  "order_by_random_limit rand limit rows =
     take limit (map snd (sort_key fst (zip (map rand [0..<length rows]) rows)))"

record 'r database =
  partitions :: "'r list"
  sampled_partitions :: "'r list"

text \<open>
  The result is \<open>sampled_df\<close> and the database with the table \<open>sampled_partitions\<close>
  replaced (\<open>if_exists='replace'\<close>).
\<close>

definition random_sample_sqlite :: "(nat \<Rightarrow> int) \<Rightarrow> 'r database \<Rightarrow> 'r list \<times> 'r database" where
  "random_sample_sqlite rand db =
     (let sampled_df = order_by_random_limit rand 100000 (partitions db)
      in (sampled_df, db\<lparr>sampled_partitions := sampled_df\<rparr>))"

section \<open>The notions the properties are stated in\<close>

text \<open>
  A partition of \<open>n\<close>: positive parts, largest first, with sum \<open>n\<close>. \<open>p n\<close> counts them.
\<close>

definition is_partition :: "nat \<Rightarrow> nat list \<Rightarrow> bool" where
  "is_partition n xs \<longleftrightarrow> sorted_wrt (\<ge>) xs \<and> (\<forall>x \<in> set xs. 0 < x) \<and> sum_list xs = n"

definition p :: "nat \<Rightarrow> nat" where
  "p n = card {xs. is_partition n xs}"

text \<open>
  The arrays the loop passes through for a given \<open>N\<close>: the first one and every one a
  pass produces from an earlier one.
\<close>

inductive reachable :: "int \<Rightarrow> int list \<Rightarrow> bool" for N :: int where
  start: "reachable N (initial N)"
| step: "reachable N IP \<Longrightarrow> transition N IP = Inr (Next IP') \<Longrightarrow> reachable N IP'"

text \<open>
  The sum of the nonzero cells is \<open>N\<close>, and the cells before the first zero do not
  increase.
\<close>

definition partition_invariant :: "int \<Rightarrow> int list \<Rightarrow> bool" where
  "partition_invariant N IP \<longleftrightarrow>
     sum_list (filter (\<lambda>v. v \<noteq> 0) IP) = N
     \<and> sorted_wrt (\<ge>) (takeWhile (\<lambda>v. v \<noteq> 0) IP)"

text \<open>The lexicographic order on arrays, cell by cell from index 0.\<close>

fun lex_less :: "int list \<Rightarrow> int list \<Rightarrow> bool" where
  "lex_less [] [] = False"
| "lex_less [] (y # ys) = True"
| "lex_less (x # xs) [] = False"
| "lex_less (x # xs) (y # ys) = (x < y \<or> (x = y \<and> lex_less xs ys))"

text \<open>The array that holds \<open>N\<close> ones and then zeros.\<close>

definition all_ones :: "int \<Rightarrow> int list" where
  "all_ones N = replicate (nat N) 1 @ replicate (80 - nat N) 0"

section \<open>The enumeration in closed form\<close>

text \<open>
  The proofs compare the loop with a recursive description of the same sequence on lists
  of natural numbers without padding. \<open>greedy r v\<close> splits \<open>r\<close> into as many parts
  \<open>v\<close> as fit and the rest; \<open>successor\<close> lowers the last part above 1 and splits what
  stands from there on; \<open>parts n k\<close> lists the partitions of \<open>n\<close> with parts up to
  \<open>k\<close>, largest first part first, and \<open>pcount n k\<close> is their number.
\<close>

definition greedy :: "nat \<Rightarrow> nat \<Rightarrow> nat list" where
  "greedy r v = replicate (r div v) v @ (if r mod v > 0 then [r mod v] else [])"

fun successor :: "nat list \<Rightarrow> nat list option" where
  "successor [] = None"
| "successor (x # xs) =
     (if x \<le> 1 then None
      else (case successor xs of
              Some ys \<Rightarrow> Some (x # ys)
            | None \<Rightarrow> Some (greedy (x + sum_list xs) (x - 1))))"

fun parts :: "nat \<Rightarrow> nat \<Rightarrow> nat list list" where
  "parts 0 k = [[]]"
| "parts (Suc n) 0 = []"
| "parts (Suc n) (Suc k) =
     (if k \<le> n then map ((#) (Suc k)) (parts (n - k) (Suc k)) else []) @ parts (Suc n) k"

fun pcount :: "nat \<Rightarrow> nat \<Rightarrow> nat" where
  "pcount 0 k = 1"
| "pcount (Suc n) 0 = 0"
| "pcount (Suc n) (Suc k) = (if k \<le> n then pcount (n - k) (Suc k) else 0) + pcount (Suc n) k"

text \<open>
  One row of the table of \<open>pcount\<close> from the row before it: the entry for \<open>n\<close> and
  \<open>k + 1\<close> adds the entry \<open>k + 1\<close> places back in the new row, which the second
  argument holds as a window. \<open>pcount_row m k\<close> is the row for \<open>k\<close> up to \<open>m\<close>.
\<close>

fun row_step :: "int list \<Rightarrow> int list \<Rightarrow> int list" where
  "row_step [] w = []"
| "row_step (a # old) [] = []"
| "row_step (a # old) (b # w) = (a + b) # row_step old (w @ [a + b])"

definition pcount_row :: "nat \<Rightarrow> nat \<Rightarrow> int list" where
  "pcount_row m k = fold (\<lambda>j row. row_step row (replicate (Suc j) 0)) [0..<k] (1 # replicate m 0)"

text \<open>The array of a list: its parts, then zeros up to 80 cells.\<close>

definition pad :: "nat list \<Rightarrow> int list" where
  "pad xs = map int xs @ replicate (80 - length xs) 0"

section \<open>Lemmas\<close>

subsection \<open>The list of partitions and its successor function\<close>

text \<open>
  \<open>parts n k\<close> has \<open>pcount n k\<close> entries, starts with the greedy split of \<open>n\<close> by
  \<open>k\<close>, ends with \<open>n\<close> ones, and \<open>successor\<close> leads from each entry to the next.
\<close>

lemma length_parts: "length (parts n k) = pcount n k"
  by (induction n k rule: parts.induct) auto

lemma parts_one: "parts n (Suc 0) = [replicate n 1]"
  by (induction n) auto

lemma parts_nonempty: "0 < k \<Longrightarrow> parts n k \<noteq> []"
  by (induction n k rule: parts.induct) auto

lemma last_parts: "0 < k \<Longrightarrow> last (parts n k) = replicate n 1"
proof (induction n k rule: parts.induct)
  case (1 k)
  then show ?case by simp
next
  case (2 n)
  then show ?case by simp
next
  case (3 n k)
  show ?case
  proof (cases k)
    case 0
    then show ?thesis using parts_one [of "Suc n"] by simp
  next
    case (Suc j)
    then have "parts (Suc n) k \<noteq> []" by (simp add: parts_nonempty)
    then show ?thesis using 3 Suc by simp
  qed
qed

lemma greedy_self: "0 < n \<Longrightarrow> greedy n n = [n]"
  by (simp add: greedy_def)

lemma greedy_add:
  assumes "0 < v"
  shows "greedy (r + v) v = v # greedy r v"
proof -
  from assms have "(r + v) div v = Suc (r div v)" by (simp add: div_add_self2)
  then show ?thesis by (simp add: greedy_def)
qed

lemma hd_parts: "0 < k \<Longrightarrow> 0 < n \<Longrightarrow> hd (parts n k) = greedy n (min n k)"
proof (induction n k rule: parts.induct)
  case (1 k)
  then show ?case by simp
next
  case (2 n)
  then show ?case by simp
next
  case (3 n k)
  show ?case
  proof (cases "k \<le> n")
    case True
    have ne: "parts (n - k) (Suc k) \<noteq> []" by (simp add: parts_nonempty)
    have hd_eq: "hd (parts (Suc n) (Suc k)) = Suc k # hd (parts (n - k) (Suc k))"
      using True ne by (simp add: hd_map)
    show ?thesis
    proof (cases "n - k")
      case 0
      with True have "k = n" by simp
      with hd_eq 0 show ?thesis by (simp add: greedy_self)
    next
      case (Suc m)
      then have IH: "hd (parts (n - k) (Suc k)) = greedy (n - k) (min (n - k) (Suc k))"
        using 3 True by simp
      show ?thesis
      proof (cases "n - k < Suc k")
        case lt: True
        have eq: "Suc n = (n - k) + Suc k" using \<open>k \<le> n\<close> by simp
        have "((n - k) + Suc k) div Suc k = (n - k) div Suc k + 1"
          by (rule div_add_self2) simp
        moreover have "((n - k) + Suc k) mod Suc k = (n - k) mod Suc k"
          by (rule mod_add_self2)
        ultimately have "Suc n div Suc k = 1" "Suc n mod Suc k = n - k"
          using lt by (simp_all only: eq [symmetric] div_less mod_less)
        then have "greedy (Suc n) (Suc k) = Suc k # [n - k]"
          using Suc by (simp add: greedy_def)
        moreover have "greedy (n - k) (min (n - k) (Suc k)) = [n - k]"
          using lt Suc by (simp add: min_absorb1 greedy_self)
        ultimately show ?thesis using hd_eq IH True by (simp add: min_absorb2)
      next
        case False
        then have m: "min (n - k) (Suc k) = Suc k" by simp
        have "greedy (Suc n) (Suc k) = greedy ((n - k) + Suc k) (Suc k)"
          using True by simp
        also have "\<dots> = Suc k # greedy (n - k) (Suc k)"
          by (rule greedy_add) simp
        finally show ?thesis using hd_eq IH m True by (simp add: min_absorb2)
      qed
    qed
  next
    case False
    then have "parts (Suc n) (Suc k) = parts (Suc n) k" by simp
    moreover have "0 < k" using False by simp
    ultimately show ?thesis using 3 False by (simp add: min_def)
  qed
qed

lemma successor_ones: "successor (replicate m (Suc 0)) = None"
  by (cases m) simp_all

lemma successor_boundary:
  "1 < j \<Longrightarrow> successor (j # replicate m (Suc 0)) = Some (greedy (j + m) (j - 1))"
  by (simp add: successor_ones sum_list_replicate)

lemma parts_chain: "successively (\<lambda>a b. successor a = Some b) (parts n k)"
proof (induction n k rule: parts.induct)
  case (1 k)
  then show ?case by simp
next
  case (2 n)
  then show ?case by simp
next
  case (3 n k)
  show ?case
  proof (cases k)
    case 0
    then show ?thesis using parts_one [of "Suc n"] by simp
  next
    case (Suc j)
    let ?P = "\<lambda>a b. successor a = Some b"
    let ?B = "if k \<le> n then map ((#) (Suc k)) (parts (n - k) (Suc k)) else []"
    have B: "successively ?P ?B"
    proof (cases "k \<le> n")
      case True
      then have "successively ?P (parts (n - k) (Suc k))" using 3 by simp
      then have "successively (\<lambda>a b. ?P (Suc k # a) (Suc k # b)) (parts (n - k) (Suc k))"
        by (rule successively_mono) (simp add: Suc)
      then show ?thesis using True by (simp add: successively_map)
    next
      case False
      then show ?thesis by simp
    qed
    have R: "successively ?P (parts (Suc n) k)" using 3 by simp
    have J: "?B = [] \<or> ?P (last ?B) (hd (parts (Suc n) k))"
    proof (cases "k \<le> n")
      case True
      have ne: "parts (n - k) (Suc k) \<noteq> []" by (simp add: parts_nonempty)
      have "last ?B = Suc k # replicate (n - k) 1"
        using True ne by (simp add: last_map last_parts)
      moreover have "hd (parts (Suc n) k) = greedy (Suc n) k"
        using True Suc hd_parts [of k "Suc n"] by (simp add: min_absorb2)
      ultimately show ?thesis
        using True Suc successor_boundary [of "Suc k" "n - k"] by simp
    next
      case False
      then show ?thesis by simp
    qed
    show ?thesis
    proof (cases "k \<le> n")
      case True
      with B R J show ?thesis by (auto simp: successively_append_iff)
    next
      case False
      with R show ?thesis by simp
    qed
  qed
qed

lemma successor_last_parts: "0 < k \<Longrightarrow> successor (last (parts n k)) = None"
  by (simp add: last_parts successor_ones)

text \<open>Its entries are the partitions of \<open>n\<close> with parts up to \<open>k\<close>, each once.\<close>

lemma parts_sound: "xs \<in> set (parts n k) \<Longrightarrow> is_partition n xs \<and> (\<forall>x \<in> set xs. x \<le> k)"
proof (induction n k arbitrary: xs rule: parts.induct)
  case (1 k)
  then show ?case by (simp add: is_partition_def)
next
  case (2 n)
  then show ?case by simp
next
  case (3 n k)
  from "3.prems" consider
    (a) ys where "k \<le> n" "xs = Suc k # ys" "ys \<in> set (parts (n - k) (Suc k))"
    | (b) "xs \<in> set (parts (Suc n) k)"
    by (auto split: if_splits)
  then show ?case
  proof cases
    case a
    with "3.IH"(1) have "is_partition (n - k) ys \<and> (\<forall>x \<in> set ys. x \<le> Suc k)" by simp
    with a show ?thesis by (auto simp: is_partition_def)
  next
    case b
    with "3.IH"(2) have "is_partition (Suc n) xs \<and> (\<forall>x \<in> set xs. x \<le> k)" by simp
    then show ?thesis by auto
  qed
qed

lemma parts_complete:
  "is_partition n xs \<Longrightarrow> \<forall>x \<in> set xs. x \<le> k \<Longrightarrow> xs \<in> set (parts n k)"
proof (induction n k arbitrary: xs rule: parts.induct)
  case (1 k)
  then show ?case by (cases xs) (auto simp: is_partition_def)
next
  case (2 n)
  then have "xs = []" by (cases xs) (auto simp: is_partition_def)
  with 2 show ?case by (simp add: is_partition_def)
next
  case (3 n k)
  from "3.prems" obtain x ys where xs: "xs = x # ys"
    by (cases xs) (auto simp: is_partition_def)
  show ?case
  proof (cases "x = Suc k")
    case True
    with "3.prems" xs have le: "k \<le> n" and ys: "is_partition (n - k) ys"
      and b: "\<forall>y \<in> set ys. y \<le> Suc k"
      by (auto simp: is_partition_def)
    from "3.IH"(1) [OF le ys b] le True xs show ?thesis by simp
  next
    case False
    with "3.prems" xs have "\<forall>y \<in> set xs. y \<le> k"
      by (auto simp: is_partition_def) 
    from "3.IH"(2) [OF "3.prems"(1) this] show ?thesis by simp
  qed
qed

lemma distinct_parts: "distinct (parts n k)"
proof (induction n k rule: parts.induct)
  case (1 k)
  then show ?case by simp
next
  case (2 n)
  then show ?case by simp
next
  case (3 n k)
  have "Suc k # ys \<notin> set (parts (Suc n) k)" for ys
    using parts_sound [of "Suc k # ys" "Suc n" k] by auto
  then show ?case using 3 by (auto simp: distinct_map)
qed

lemma set_parts: "set (parts n n) = {xs. is_partition n xs}"
proof -
  have "x \<le> n" if "is_partition n xs" "x \<in> set xs" for xs x
    using that member_le_sum_list [of x xs] by (auto simp: is_partition_def)
  then show ?thesis using parts_sound parts_complete by blast
qed

lemma card_partitions: "card {xs. is_partition n xs} = pcount n n"
  using distinct_card [OF distinct_parts, of n n] by (simp add: set_parts length_parts)

subsection \<open>The loops over the array\<close>

lemma length_pad: "length xs \<le> 80 \<Longrightarrow> length (pad xs) = 80"
  by (simp add: pad_def)

lemma py_get_nat: "i < length xs \<Longrightarrow> py_get xs (int i) = Inr (xs ! i)"
  by (simp add: py_get_def py_index_def)

lemma py_set_nat: "i < length xs \<Longrightarrow> py_set xs (int i) v = Inr (xs[i := v])"
  by (simp add: py_set_def py_index_def)

lemma scan_J_takeWhile:
  "length IP = 80 \<Longrightarrow> J \<le> 80 \<Longrightarrow>
   scan_J IP J = Inr (J + length (takeWhile (\<lambda>v. 1 < v) (drop J IP)))"
proof (induction IP J rule: scan_J.induct)
  case (1 IP J)
  show ?case
  proof (cases "J < 80")
    case True
    with "1.prems" have get: "py_get IP (int J) = Inr (IP ! J)"
      by (simp add: py_get_nat)
    from True "1.prems" have drop: "drop J IP = IP ! J # drop (Suc J) IP"
      by (simp add: Cons_nth_drop_Suc)
    show ?thesis
    proof (cases "1 < IP ! J")
      case gt: True
      from "1.IH" [OF True get gt] "1.prems" True
      have "scan_J IP (J + 1) = Inr (J + 1 + length (takeWhile (\<lambda>v. 1 < v) (drop (J + 1) IP)))"
        by simp
      with True get gt drop show ?thesis
        by (simp add: scan_J.simps [of IP J])
    next
      case False
      with True get drop show ?thesis
        by (simp add: scan_J.simps [of IP J])
    qed
  next
    case False
    with "1.prems" have "J = 80" by simp
    then show ?thesis using "1.prems"
      by (subst scan_J.simps) simp
  qed
qed

lemma takeWhile_pad:
  "takeWhile (\<lambda>v. 1 < v) (pad xs) = map int (takeWhile (\<lambda>x. 1 < x) xs)"
proof -
  have "takeWhile (\<lambda>v. (1::int) < v) (map int xs @ replicate m 0)
        = map int (takeWhile (\<lambda>x. 1 < x) xs)" for m
    by (induction xs) (auto simp: takeWhile_replicate)
  then show ?thesis by (simp add: pad_def)
qed

lemma scan_J_pad:
  "length xs \<le> 80 \<Longrightarrow> scan_J (pad xs) 0 = Inr (length (takeWhile (\<lambda>x. 1 < x) xs))"
  using scan_J_takeWhile [of "pad xs" 0] by (simp add: length_pad takeWhile_pad)

lemma for_loop_store:
  "(\<And>i ys. a \<le> i \<Longrightarrow> i < a + m \<Longrightarrow> length ys = length xs \<Longrightarrow>
       body (int i) ys = Inr (ys[off + i := v])) \<Longrightarrow>
   off + a + m \<le> length xs \<Longrightarrow>
   for_loop (py_range (int a) (int (a + m))) body (xs :: 'a list)
     = Inr (take (off + a) xs @ replicate m v @ drop (off + a + m) xs)"
proof (induction m arbitrary: a xs)
  case 0
  then show ?case by (simp add: py_range_def)
next
  case (Suc m)
  have range: "py_range (int a) (int (a + Suc m)) = int a # py_range (int (Suc a)) (int (Suc a + m))"
    by (simp add: py_range_def upto_rec1 [of "int a"] add.commute)
  have first: "body (int a) xs = Inr (xs[off + a := v])"
    by (rule Suc.prems(1)) simp_all
  have rest: "for_loop (py_range (int (Suc a)) (int (Suc a + m))) body (xs[off + a := v])
        = Inr (take (off + Suc a) (xs[off + a := v]) @ replicate m v
               @ drop (off + Suc a + m) (xs[off + a := v]))"
  proof (rule Suc.IH)
    fix i and ys :: "'a list"
    assume "Suc a \<le> i" "i < Suc a + m" "length ys = length (xs[off + a := v])"
    then show "body (int i) ys = Inr (ys[off + i := v])"
      using Suc.prems(1) [of i ys] by simp
  next
    show "off + Suc a + m \<le> length (xs[off + a := v])"
      using Suc.prems(2) by simp
  qed
  have lt: "off + a < length xs" using Suc.prems(2) by simp
  have "take (off + Suc a) (xs[off + a := v]) = take (off + a) xs @ [v]"
    using lt by (simp add: take_Suc_conv_app_nth)
  moreover have "drop (off + Suc a + m) (xs[off + a := v]) = drop (off + a + Suc m) xs"
    by simp
  ultimately show ?case
    using range first rest by (simp add: replicate_append_same)
qed

lemma fill_parts_eq:
  assumes "ptm + c \<le> 80" "length IP = 80"
  shows "fill_parts ptm (int c) v IP = Inr (take ptm IP @ replicate c v @ drop (ptm + c) IP)"
proof -
  have "for_loop (py_range (int 0) (int (0 + c)))
          (\<lambda>i IP. if int ptm + i < 80 then py_set IP (int ptm + i) v else Inr IP) IP
        = Inr (take (ptm + 0) IP @ replicate c v @ drop (ptm + 0 + c) IP)"
  proof (rule for_loop_store)
    fix i and ys :: "int list"
    assume "i < 0 + c" "length ys = length IP"
    with assms have "ptm + i < length ys" by simp
    then have "py_set ys (int (ptm + i)) v = Inr (ys[ptm + i := v])"
      by (rule py_set_nat)
    moreover have "int ptm + int i < 80" using \<open>i < 0 + c\<close> assms by simp
    ultimately show "(if int ptm + int i < 80 then py_set ys (int ptm + int i) v else Inr ys)
        = Inr (ys[ptm + i := v])"
      by simp
  next
    show "ptm + 0 + c \<le> length IP" using assms by simp
  qed
  then show ?thesis by (simp add: fill_parts_def)
qed

lemma zero_rest_eq:
  assumes "np \<le> 80" "length IP = 80"
  shows "zero_rest (int np) IP = Inr (take np IP @ replicate (80 - np) 0)"
proof -
  have "for_loop (py_range (int np) (int (np + (80 - np)))) (\<lambda>i IP. py_set IP i 0) IP
        = Inr (take (0 + np) IP @ replicate (80 - np) 0 @ drop (0 + np + (80 - np)) IP)"
  proof (rule for_loop_store)
    fix i and ys :: "int list"
    assume "i < np + (80 - np)" "length ys = length IP"
    with assms have "i < length ys" by simp
    then show "py_set ys (int i) 0 = Inr (ys[0 + i := 0])"
      by (simp add: py_set_nat)
  next
    show "0 + np + (80 - np) \<le> length IP" using assms by simp
  qed
  then show ?thesis using assms by (simp add: zero_rest_def)
qed

subsection \<open>One pass of the loop on the array of a list\<close>

lemma successor_None: "takeWhile (\<lambda>x. 1 < x) xs = [] \<Longrightarrow> successor xs = None"
  by (cases xs) (auto split: if_splits)

lemma successor_Some:
  "takeWhile (\<lambda>x. 1 < x) xs \<noteq> [] \<Longrightarrow>
   successor xs =
     Some (take (length (takeWhile (\<lambda>x. 1 < x) xs) - 1) xs
           @ greedy (sum_list (drop (length (takeWhile (\<lambda>x. 1 < x) xs) - 1) xs))
               (xs ! (length (takeWhile (\<lambda>x. 1 < x) xs) - 1) - 1))"
proof (induction xs)
  case Nil
  then show ?case by simp
next
  case (Cons x xs)
  then have x: "1 < x" by (auto split: if_splits)
  show ?case
  proof (cases "takeWhile (\<lambda>x. 1 < x) xs = []")
    case True
    then have "successor xs = None" by (rule successor_None)
    with x True show ?thesis by simp
  next
    case False
    then obtain j where j: "length (takeWhile (\<lambda>x. 1 < x) xs) = Suc j"
      by (cases "length (takeWhile (\<lambda>x. 1 < x) xs)") auto
    from Cons.IH [OF False] x j show ?thesis by simp
  qed
qed

lemma step_locals_unfold:
  assumes "scan_J IP 0 = Inr J" "J \<noteq> 0"
    and "py_get IP (int (J - 1)) = Inr cv" "cv - 1 \<noteq> 0"
    and "N - sum_list (take (J - 1) IP) = remaining"
  shows "step_locals N IP
         = Inr (Some (J - 1, cv - 1, remaining div (cv - 1), remaining mod (cv - 1)))"
  using assms by (simp add: step_locals_def Let_def)

lemma update_partition_unfold:
  assumes "fill_parts ptm count nv IP = Inr IP1"
    and "store_remainder ptm count remainder IP1 = Inr IP2"
    and "zero_rest (int ptm + count + (if remainder > 0 then 1 else 0)) IP2 = Inr IP3"
  shows "update_partition ptm nv count remainder IP = Inr IP3"
  using assms by (simp add: update_partition_def Let_def)

lemma length_le_sum_list: "\<forall>x \<in> set xs. (1::nat) \<le> x \<Longrightarrow> length xs \<le> sum_list xs"
  by (induction xs) auto

lemma update_partition_pad:
  assumes ptm_lt: "ptm < length xs" and len: "length xs \<le> 80"
    and np_le: "ptm + rem div nv + (if 0 < rem mod nv then 1 else 0) \<le> 80"
  shows "update_partition ptm (int nv) (int (rem div nv)) (int (rem mod nv)) (pad xs)
         = Inr (pad (take ptm xs @ greedy rem nv))"
proof -
  define c where "c = rem div nv"
  define r where "r = rem mod nv"
  define np where "np = ptm + c + (if 0 < r then 1 else 0)"
  define IP1 where "IP1 = take ptm (pad xs) @ replicate c (int nv) @ drop (ptm + c) (pad xs)"
  define IP2 where "IP2 = (if ptm + c < 80 then IP1[ptm + c := int r] else IP1)"
  define IP3 where "IP3 = take np IP2 @ replicate (80 - np) 0"
  have np80: "np \<le> 80" using np_le by (simp add: np_def c_def r_def)
  then have pc: "ptm + c \<le> 80" by (simp add: np_def)
  have lenp: "length (pad xs) = 80" using len by (rule length_pad)
  have take_pad: "take ptm (pad xs) = map int (take ptm xs)"
    using ptm_lt by (simp add: pad_def take_map)
  have fill: "fill_parts ptm (int c) (int nv) (pad xs) = Inr IP1"
    unfolding IP1_def by (rule fill_parts_eq [OF pc lenp])
  have len1: "length IP1 = 80" using pc lenp by (simp add: IP1_def)
  have store: "store_remainder ptm (int c) (int r) IP1 = Inr IP2"
    using len1 py_set_nat [of "ptm + c" IP1 "int r"]
    by (simp add: store_remainder_def IP2_def)
  have len2: "length IP2 = 80" using len1 by (simp add: IP2_def)
  have "int ptm + int c + (if int r > 0 then 1 else 0) = int np"
    by (simp add: np_def)
  then have zero: "zero_rest (int ptm + int c + (if int r > 0 then 1 else 0)) IP2 = Inr IP3"
    using zero_rest_eq [OF np80 len2] by (simp add: IP3_def)
  have upd: "update_partition ptm (int nv) (int c) (int r) (pad xs) = Inr IP3"
    using fill store zero by (rule update_partition_unfold)
  have front: "take (ptm + c) IP1 = take ptm (pad xs) @ replicate c (int nv)"
    using ptm_lt lenp len by (simp add: IP1_def)
  have head: "take np IP2 = map int (take ptm xs @ greedy rem nv)"
  proof (cases "0 < r")
    case True
    then have "np = Suc (ptm + c)" by (simp add: np_def)
    moreover from this np80 have lt: "ptm + c < 80" by simp
    moreover have "take (Suc (ptm + c)) (IP1[ptm + c := int r]) = take (ptm + c) IP1 @ [int r]"
      using lt len1 by (simp add: take_Suc_conv_app_nth)
    ultimately show ?thesis
      using True front by (simp add: IP2_def take_pad greedy_def c_def r_def)
  next
    case False
    then have "np = ptm + c" by (simp add: np_def)
    then show ?thesis
      using False front by (simp add: IP2_def take_pad greedy_def c_def r_def)
  qed
  have "length (take ptm xs @ greedy rem nv) = np"
    using ptm_lt by (simp add: greedy_def np_def c_def r_def)
  with head have "IP3 = pad (take ptm xs @ greedy rem nv)"
    by (simp add: IP3_def pad_def)
  with upd show ?thesis by (simp add: c_def r_def)
qed

text \<open>What one pass computes on the array of a list whose sum is \<open>n\<close>.\<close>

lemma step_locals_pad:
  assumes sum: "sum_list xs = n" and len: "length xs \<le> 80"
    and J: "length (takeWhile (\<lambda>x. 1 < x) xs) = Suc ptm"
  shows "step_locals (int n) (pad xs)
         = Inr (Some (ptm, int (xs ! ptm - 1),
                      int (sum_list (drop ptm xs) div (xs ! ptm - 1)),
                      int (sum_list (drop ptm xs) mod (xs ! ptm - 1))))"
    and "1 < xs ! ptm" and "ptm < length xs"
    and "\<forall>x \<in> set (take ptm xs). 1 \<le> x"
    and "sum_list (take ptm xs) + sum_list (drop ptm xs) = n"
proof -
  define rem where "rem = sum_list (drop ptm xs)"
  have scan: "scan_J (pad xs) 0 = Inr (Suc ptm)"
    using len J by (simp add: scan_J_pad)
  have "Suc ptm \<le> length xs"
    using length_takeWhile_le [of "\<lambda>x. 1 < x" xs] J by simp
  then show ptm_lt: "ptm < length xs" by simp
  have "take (Suc ptm) xs = takeWhile (\<lambda>x. 1 < x) xs"
    using J takeWhile_eq_take [of "\<lambda>x. 1 < x" xs] by simp
  then have big: "\<forall>x \<in> set (take (Suc ptm) xs). 1 < x"
    by (auto dest: set_takeWhileD)
  have "xs ! ptm \<in> set (take (Suc ptm) xs)"
    using ptm_lt by (simp add: take_Suc_conv_app_nth)
  with big show cv: "1 < xs ! ptm" by blast
  show "\<forall>x \<in> set (take ptm xs). 1 \<le> x"
    using big by (auto simp: take_Suc_conv_app_nth ptm_lt less_imp_le)
  show split: "sum_list (take ptm xs) + sum_list (drop ptm xs) = n"
    using sum sum_list_append [of "take ptm xs" "drop ptm xs"] by simp
  have lenp: "length (pad xs) = 80" using len by (rule length_pad)
  have take_pad: "take ptm (pad xs) = map int (take ptm xs)"
    using ptm_lt by (simp add: pad_def take_map)
  have get: "py_get (pad xs) (int (Suc ptm - 1)) = Inr (int (xs ! ptm))"
    using ptm_lt lenp py_get_nat [of ptm "pad xs"] by (simp add: pad_def nth_append)
  have nz: "int (xs ! ptm) - 1 \<noteq> 0" using cv by simp
  have nv_int: "int (xs ! ptm) - 1 = int (xs ! ptm - 1)" using cv by simp
  have remaining: "int n - sum_list (take (Suc ptm - 1) (pad xs)) = int rem"
    using split by (simp add: take_pad sum_list_of_nat rem_def)
  have "step_locals (int n) (pad xs)
        = Inr (Some (Suc ptm - 1, int (xs ! ptm) - 1,
                     int rem div (int (xs ! ptm) - 1), int rem mod (int (xs ! ptm) - 1)))"
    using scan _ get nz remaining by (rule step_locals_unfold) simp
  then show "step_locals (int n) (pad xs)
         = Inr (Some (ptm, int (xs ! ptm - 1),
                      int (sum_list (drop ptm xs) div (xs ! ptm - 1)),
                      int (sum_list (drop ptm xs) mod (xs ! ptm - 1))))"
    unfolding nv_int by (simp add: rem_def zdiv_int zmod_int)
qed

text \<open>The updates stay inside the array: the new list is no longer than its sum.\<close>

lemma next_position_le:
  assumes ones: "\<forall>x \<in> set (take ptm xs). (1::nat) \<le> x" and ptm_lt: "ptm < length xs"
    and nv: "0 < nv" and split: "sum_list (take ptm xs) + rem = n"
  shows "ptm + rem div nv + (if 0 < rem mod nv then 1 else 0) \<le> n"
proof -
  define c where "c = rem div nv"
  define r where "r = rem mod nv"
  from ones have "length (take ptm xs) \<le> sum_list (take ptm xs)"
    by (rule length_le_sum_list)
  then have ptm_le: "ptm \<le> sum_list (take ptm xs)"
    using ptm_lt by simp
  have rem_eq: "rem = c * nv + r"
    by (simp add: c_def r_def)
  have c_le: "c \<le> c * nv" using nv by simp
  have "c + (if 0 < r then 1 else 0) \<le> c * nv + r"
  proof (cases "0 < r")
    case True
    with c_le have "c + 1 \<le> c * nv + r" by linarith
    with True show ?thesis by (simp only: if_True)
  next
    case False
    from c_le have "c + 0 \<le> c * nv + r" by linarith
    with False show ?thesis by (simp only: if_False)
  qed
  then have "c + (if 0 < r then 1 else 0) \<le> rem"
    using rem_eq by simp
  then show ?thesis
    using ptm_le split by (simp add: c_def r_def)
qed

lemma transition_pad:
  assumes sum: "sum_list xs = n" and n: "n \<le> 80" and len: "length xs \<le> 80"
  shows "transition (int n) (pad xs)
         = Inr (case successor xs of None \<Rightarrow> Terminal | Some ys \<Rightarrow> Next (pad ys))"
proof (cases "takeWhile (\<lambda>x. 1 < x) xs = []")
  case True
  then have "successor xs = None" by (rule successor_None)
  moreover have "scan_J (pad xs) 0 = Inr 0"
    using len True by (simp add: scan_J_pad)
  ultimately show ?thesis by (simp add: transition_def step_locals_def)
next
  case False
  then obtain ptm where J: "length (takeWhile (\<lambda>x. 1 < x) xs) = Suc ptm"
    by (cases "length (takeWhile (\<lambda>x. 1 < x) xs)") auto
  define rem where "rem = sum_list (drop ptm xs)"
  define nv where "nv = xs ! ptm - 1"
  note loc = step_locals_pad [OF sum len J]
  have succ: "successor xs = Some (take ptm xs @ greedy rem nv)"
    using successor_Some [OF False] unfolding J by (simp add: rem_def nv_def)
  have nv_pos: "0 < nv" using loc(2) by (simp add: nv_def)
  have "ptm + rem div nv + (if 0 < rem mod nv then 1 else 0) \<le> n"
    using loc(4) loc(3) nv_pos loc(5) unfolding rem_def by (rule next_position_le)
  with n have "ptm + rem div nv + (if 0 < rem mod nv then 1 else 0) \<le> 80" by simp
  with loc(3) len
  have "update_partition ptm (int nv) (int (rem div nv)) (int (rem mod nv)) (pad xs)
         = Inr (pad (take ptm xs @ greedy rem nv))"
    by (rule update_partition_pad)
  with loc(1) succ show ?thesis
    by (simp add: transition_def rem_def nv_def)
qed

subsection \<open>The loop follows the list of partitions\<close>

lemma is_partition_length: "is_partition n xs \<Longrightarrow> length xs \<le> n"
  using length_le_sum_list [of xs] by (auto simp: is_partition_def Suc_le_eq)

lemma generate_chain:
  assumes "n \<le> 80"
  shows "successively (\<lambda>a b. successor a = Some b) (x # L) \<Longrightarrow>
         successor (last (x # L)) = None \<Longrightarrow>
         \<forall>y \<in> set (x # L). sum_list y = n \<and> length y \<le> 80 \<Longrightarrow>
         generate (int n) (pad x) out = Some (Inr (out @ map pad L))"
proof (induction L arbitrary: x out)
  case Nil
  then have "transition (int n) (pad x) = Inr Terminal"
    using transition_pad [of x n] assms by simp
  then show ?case by (subst generate.simps) simp
next
  case (Cons y L)
  from Cons.prems have xy: "successor x = Some y" by simp
  with Cons.prems have "transition (int n) (pad x) = Inr (Next (pad y))"
    using transition_pad [of x n] assms by simp
  then have "generate (int n) (pad x) out = generate (int n) (pad y) (out @ [pad y])"
    by (subst generate.simps) simp
  also have "\<dots> = Some (Inr ((out @ [pad y]) @ map pad L))"
    using Cons.prems by (intro Cons.IH) simp_all
  finally show ?case by simp
qed

lemma initial_pad: "initial (int n) = pad (if n = 0 then [] else [n])"
  by (simp add: initial_def pad_def replicate_Suc [symmetric] del: replicate_Suc)

lemma hd_parts_self: "hd (parts n n) = (if n = 0 then [] else [n])"
  using hd_parts [of n n] by (simp add: greedy_self)

lemma enumerate_partitions_eq:
  assumes "n \<le> 80"
  shows "enumerate_partitions (int n) = Some (Inr (map pad (parts n n)))"
proof -
  obtain x L where xL: "parts n n = x # L"
    using parts_nonempty [of n n] by (cases "parts n n") (auto, cases n, auto)
  then have x: "x = (if n = 0 then [] else [n])"
    using hd_parts_self [of n] by simp
  have "successively (\<lambda>a b. successor a = Some b) (x # L)"
    using parts_chain [of n n] xL by simp
  moreover have "successor (last (x # L)) = None"
  proof (cases "n = 0")
    case True
    with xL show ?thesis by simp
  next
    case False
    then show ?thesis using successor_last_parts [of n n] xL by simp
  qed
  moreover have "\<forall>y \<in> set (x # L). sum_list y = n \<and> length y \<le> 80"
  proof
    fix y assume "y \<in> set (x # L)"
    with xL have "is_partition n y" using parts_sound [of y n n] by simp
    then show "sum_list y = n \<and> length y \<le> 80"
      using is_partition_length [of n y] assms by (simp add: is_partition_def)
  qed
  ultimately have "generate (int n) (pad x) [pad x] = Some (Inr ([pad x] @ map pad L))"
    using generate_chain [OF assms] by blast
  then show ?thesis
    by (simp add: enumerate_partitions_def initial_pad x [symmetric] xL)
qed

subsection \<open>The number of partitions by rows\<close>

lemma row_step_correct:
  "row_step (map (\<lambda>n. int (pcount n k)) [a..<a + m])
            (map (\<lambda>i. if i < Suc k then 0 else int (pcount (i - Suc k) (Suc k))) [a..<a + Suc k])
   = map (\<lambda>n. int (pcount n (Suc k))) [a..<a + m]"
proof (induction m arbitrary: a)
  case 0
  then show ?case by simp
next
  case (Suc m)
  let ?g = "\<lambda>i. if i < Suc k then 0 else int (pcount (i - Suc k) (Suc k))"
  have step: "int (pcount a k) + ?g a = int (pcount a (Suc k))"
    by (cases a) (auto simp: not_less)
  have l1: "[a..<a + Suc m] = a # [Suc a..<Suc a + m]"
    by (simp add: upt_conv_Cons)
  have l2: "[a..<a + Suc k] = a # [Suc a..<Suc a + k]"
    by (simp add: upt_conv_Cons)
  have l3: "map ?g [Suc a..<Suc a + k] @ [int (pcount a (Suc k))] = map ?g [Suc a..<Suc a + Suc k]"
    by simp
  show ?case
    unfolding l1 l2 list.map row_step.simps step l3
    using Suc.IH [of "Suc a"] by simp
qed

lemma pcount_row_correct: "pcount_row m k = map (\<lambda>n. int (pcount n k)) [0..<Suc m]"
proof (induction k)
  case 0
  have "map (\<lambda>n. int (pcount n 0)) [0..<Suc m] = 1 # replicate m 0"
  proof (induction m)
    case 0
    then show ?case by simp
  next
    case (Suc m)
    have "map (\<lambda>n. int (pcount n 0)) [0..<Suc (Suc m)]
          = map (\<lambda>n. int (pcount n 0)) [0..<Suc m] @ [0]"
      by simp
    with Suc show ?case by (simp add: replicate_append_same)
  qed
  then show ?case by (simp add: pcount_row_def)
next
  case (Suc k)
  have "pcount_row m (Suc k) = row_step (pcount_row m k) (replicate (Suc k) 0)"
    by (simp add: pcount_row_def)
  also have "replicate (Suc k) 0
      = map (\<lambda>i. if i < Suc k then 0 else int (pcount (i - Suc k) (Suc k))) [0..<0 + Suc k]"
  proof -
    have "map (\<lambda>i. if i < Suc k then 0 else int (pcount (i - Suc k) (Suc k))) [0..<0 + Suc k]
          = map (\<lambda>i. 0) [0..<0 + Suc k]"
      by (rule map_cong [OF refl]) auto
    also have "\<dots> = replicate (Suc k) 0"
      by (simp add: map_replicate_const del: upt_Suc replicate_Suc)
    finally show ?thesis by simp
  qed
  finally show ?case
    using row_step_correct [of k 0 "Suc m"] Suc by simp
qed

lemma pcount_via_row: "int (pcount m k) = last (pcount_row m k)"
  by (simp add: pcount_row_correct)

subsection \<open>The arrays the loop reaches\<close>

lemma chain_closed:
  "successively (\<lambda>a b. f a = Some b) L \<Longrightarrow> f (last L) = None \<Longrightarrow>
   x \<in> set L \<Longrightarrow> f x = Some y \<Longrightarrow> y \<in> set L"
proof (induction L rule: induct_list012)
  case 1
  then show ?case by simp
next
  case (2 a)
  then show ?case by simp
next
  case (3 a b L)
  then show ?case by auto
qed

lemma successor_in_parts:
  assumes "xs \<in> set (parts n n)" "successor xs = Some ys"
  shows "ys \<in> set (parts n n)"
proof (cases "n = 0")
  case True
  with assms show ?thesis by simp
next
  case False
  then have "successor (last (parts n n)) = None"
    by (simp add: successor_last_parts)
  with parts_chain [of n n] show ?thesis
    using assms by (rule chain_closed)
qed

lemma parts_fit:
  assumes "xs \<in> set (parts n n)" "n \<le> 80"
  shows "sum_list xs = n" "length xs \<le> 80" "is_partition n xs"
proof -
  from assms(1) show part: "is_partition n xs" using parts_sound by blast
  then show "sum_list xs = n" by (simp add: is_partition_def)
  from part assms(2) show "length xs \<le> 80" using is_partition_length [of n xs] by simp
qed

lemma reachable_pad:
  assumes "n \<le> 80" "reachable (int n) IP"
  shows "\<exists>xs \<in> set (parts n n). IP = pad xs"
  using assms(2)
proof (induction rule: reachable.induct)
  case start
  have "hd (parts n n) \<in> set (parts n n)"
    by (cases n) (simp_all add: parts_nonempty)
  then show ?case
    unfolding initial_pad hd_parts_self [symmetric] by blast
next
  case (step IP IP')
  then obtain xs where xs: "xs \<in> set (parts n n)" "IP = pad xs" by blast
  note fit = parts_fit [OF xs(1) assms(1)]
  from step.hyps(2) xs(2) transition_pad [OF fit(1) assms(1) fit(2)]
  obtain ys where "successor xs = Some ys" "IP' = pad ys"
    by (auto split: option.splits)
  with xs(1) show ?case using successor_in_parts by blast
qed

lemma filter_pad: "\<forall>x \<in> set xs. 0 < x \<Longrightarrow> filter (\<lambda>v. v \<noteq> 0) (pad xs) = map int xs"
  by (simp add: pad_def filter_map comp_def)

lemma takeWhile_nonzero_pad:
  "\<forall>x \<in> set xs. 0 < x \<Longrightarrow> takeWhile (\<lambda>v. v \<noteq> 0) (pad xs) = map int xs"
proof -
  assume pos: "\<forall>x \<in> set xs. 0 < x"
  have "takeWhile (\<lambda>v. v \<noteq> (0::int)) (map int xs @ replicate m 0) = map int xs" for m
    using pos by (induction xs) (auto simp: takeWhile_replicate)
  then show ?thesis by (simp add: pad_def)
qed

lemma partition_invariant_pad:
  assumes "is_partition n xs"
  shows "partition_invariant (int n) (pad xs)"
proof -
  from assms have pos: "\<forall>x \<in> set xs. 0 < x" and sorted: "sorted_wrt (\<ge>) xs"
    and sum: "sum_list xs = n"
    by (simp_all add: is_partition_def)
  have "sorted_wrt (\<ge>) (map int xs)"
    using sorted by (simp add: sorted_wrt_map)
  with pos sum show ?thesis
    by (simp add: partition_invariant_def filter_pad takeWhile_nonzero_pad sum_list_of_nat)
qed

lemma pad_inject:
  assumes "\<forall>x \<in> set xs. 0 < x" "\<forall>y \<in> set ys. 0 < y" "pad xs = pad ys"
  shows "xs = ys"
proof -
  have "map int xs = takeWhile (\<lambda>v. v \<noteq> 0) (pad xs)"
    using assms(1) by (simp add: takeWhile_nonzero_pad)
  also have "\<dots> = map int ys"
    using assms(2,3) by (simp add: takeWhile_nonzero_pad)
  finally show ?thesis by (simp add: map_eq_conv inj_on_def list.inj_map_strong)
qed

lemma distinct_pad_parts: "distinct (map pad (parts n n))"
proof -
  have "inj_on pad (set (parts n n))"
  proof (rule inj_onI)
    fix xs ys
    assume "xs \<in> set (parts n n)" "ys \<in> set (parts n n)" "pad xs = pad ys"
    moreover from this have "is_partition n xs" "is_partition n ys"
      using parts_sound by blast+
    ultimately show "xs = ys"
      by (intro pad_inject) (simp_all add: is_partition_def)
  qed
  then show ?thesis by (simp add: distinct_map distinct_parts)
qed

lemma p_eq_pcount: "p n = pcount n n"
  by (simp add: p_def card_partitions)

lemma p_eq_row: "int (p n) = last (pcount_row n n)"
  by (simp add: p_eq_pcount pcount_via_row)

lemma p_values: "p 0 = 1" "p 1 = 1" "p 5 = 7" "p 10 = 42" "p 80 = 15796476"
proof -
  have "last (pcount_row 0 0) = 1" by code_simp
  then show "p 0 = 1" using p_eq_row [of 0] by simp
  have "last (pcount_row 1 1) = 1" by code_simp
  then show "p 1 = 1" using p_eq_row [of 1] by simp
  have "last (pcount_row 5 5) = 7" by code_simp
  then show "p 5 = 7" using p_eq_row [of 5] by simp
  have "last (pcount_row 10 10) = 42" by code_simp
  then show "p 10 = 42" using p_eq_row [of 10] by simp
  have "last (pcount_row 80 80) = 15796476" by code_simp
  then show "p 80 = 15796476" using p_eq_row [of 80] by simp
qed

lemma enumerate_partitions_nat:
  assumes "0 \<le> N" "N \<le> 80"
  shows "enumerate_partitions N = Some (Inr (map pad (parts (nat N) (nat N))))"
  using enumerate_partitions_eq [of "nat N"] assms by simp

lemma reachable_nat:
  assumes "0 \<le> N" "N \<le> 80" "reachable N IP"
  obtains xs where "xs \<in> set (parts (nat N) (nat N))" "IP = pad xs"
proof -
  have "nat N \<le> 80" using assms by simp
  moreover have "reachable (int (nat N)) IP" using assms by simp
  ultimately have "\<exists>xs \<in> set (parts (nat N) (nat N)). IP = pad xs"
    by (rule reachable_pad)
  then show thesis using that by blast
qed

subsection \<open>Order, and the last array\<close>

lemma hd_greedy: "0 < v \<Longrightarrow> v \<le> r \<Longrightarrow> \<exists>zs. greedy r v = v # zs"
proof -
  assume "0 < v" "v \<le> r"
  then have "0 < r div v" by (simp add: div_greater_zero_iff)
  then obtain c where "r div v = Suc c" by (cases "r div v") auto
  then show ?thesis by (simp add: greedy_def)
qed

lemma successor_lex_less:
  "successor xs = Some ys \<Longrightarrow>
   lex_less (map int ys @ replicate k 0) (map int xs @ replicate m 0)"
proof (induction xs arbitrary: ys k m)
  case Nil
  then show ?case by simp
next
  case (Cons x xs)
  from Cons.prems have x: "1 < x" by (auto split: if_splits)
  show ?case
  proof (cases "successor xs")
    case None
    with Cons.prems x have ys: "ys = greedy (x + sum_list xs) (x - 1)" by simp
    have "0 < x - 1" "x - 1 \<le> x + sum_list xs" using x by simp_all
    then have "\<exists>zs. greedy (x + sum_list xs) (x - 1) = (x - 1) # zs"
      by (rule hd_greedy)
    then obtain zs where "greedy (x + sum_list xs) (x - 1) = (x - 1) # zs" ..
    with ys x show ?thesis by simp
  next
    case (Some zs)
    with Cons.prems x have "ys = x # zs" by simp
    with Cons.IH [OF Some] show ?thesis by simp
  qed
qed

lemma successor_lex_less_pad: "successor xs = Some ys \<Longrightarrow> lex_less (pad ys) (pad xs)"
  unfolding pad_def by (rule successor_lex_less)

lemma all_ones_pad: "0 \<le> N \<Longrightarrow> all_ones N = pad (replicate (nat N) 1)"
  by (simp add: all_ones_def pad_def)

lemma successor_None_ones:
  assumes "is_partition n xs" "successor xs = None"
  shows "xs = replicate n 1"
proof -
  from assms(1) have pos: "\<forall>x \<in> set xs. 0 < x" and sorted: "sorted_wrt (\<ge>) xs"
    and sum: "sum_list xs = n"
    by (simp_all add: is_partition_def)
  have one: "x = 1" if "x \<in> set xs" for x
  proof (cases xs)
    case Nil
    with that show ?thesis by simp
  next
    case (Cons a as)
    with assms(2) have "a \<le> 1" by (cases "a \<le> 1") (simp_all split: option.splits)
    moreover have "x \<le> a" using sorted Cons that by auto
    moreover have "0 < x" using pos that by simp
    ultimately show ?thesis by simp
  qed
  then have xs: "xs = replicate (length xs) 1"
    by (simp add: replicate_length_same)
  have "sum_list (replicate (length xs) (1::nat)) = length xs"
    by (simp add: sum_list_replicate)
  with xs have "sum_list xs = length xs" by simp
  with sum xs show ?thesis by simp
qed

subsection \<open>The loop for \<open>N\<close> up to 1\<close>

lemma scan_J_initial_small: "N \<le> 1 \<Longrightarrow> scan_J (initial N) 0 = Inr 0"
  by (subst scan_J.simps) (simp add: initial_def py_get_def py_index_def)

lemma transition_initial_small: "N \<le> 1 \<Longrightarrow> transition N (initial N) = Inr Terminal"
  by (simp add: transition_def step_locals_def scan_J_initial_small)

lemma step_locals_initial_small: "N \<le> 1 \<Longrightarrow> step_locals N (initial N) = Inr None"
  by (simp add: step_locals_def scan_J_initial_small)

lemma reachable_small:
  assumes "N \<le> 1" "reachable N IP"
  shows "IP = initial N"
  using assms(2)
proof (induction rule: reachable.induct)
  case start
  show ?case by simp
next
  case (step IP IP')
  with assms(1) show ?case using transition_initial_small [of N] by simp
qed

lemma enumerate_partitions_small:
  assumes "N \<le> 1"
  shows "enumerate_partitions N = Some (Inr [initial N])"
proof -
  from assms have "transition N (initial N) = Inr Terminal"
    by (rule transition_initial_small)
  then have "generate N (initial N) [initial N] = Some (Inr [initial N])"
    by (subst generate.simps) simp
  then show ?thesis by (simp add: enumerate_partitions_def)
qed

lemma partition_invariant_initial: "partition_invariant N (initial N)"
  by (simp add: partition_invariant_def initial_def takeWhile_replicate)

subsection \<open>The generator for 80 while its clock stays within 10 seconds\<close>

lemma non_zero_parts_pad: "\<forall>x \<in> set xs. 0 < x \<Longrightarrow> non_zero_parts (pad xs) = map int xs"
  by (simp add: non_zero_parts_def pad_def filter_map comp_def)

lemma make_row_pad:
  assumes "is_partition n xs" "0 < n"
  shows "\<exists>r. make_row (pad xs) = Inr r"
proof -
  from assms have "xs \<noteq> []" and "\<forall>x \<in> set xs. 0 < x"
    by (auto simp: is_partition_def)
  then show ?thesis
    by (simp add: make_row_def non_zero_parts_pad Let_def)
qed

lemma transition_parts_nth:
  assumes "Suc i < length (parts n n)" "n \<le> 80"
  shows "transition (int n) (pad (parts n n ! i)) = Inr (Next (pad (parts n n ! Suc i)))"
proof -
  have "successor (parts n n ! i) = Some (parts n n ! Suc i)"
    using parts_chain [of n n] assms(1) by (rule successively_nth)
  moreover have "parts n n ! i \<in> set (parts n n)"
    using assms(1) by simp
  note fit = parts_fit [OF this assms(2)]
  ultimately show ?thesis
    using transition_pad [OF fit(1) assms(2) fit(2)] by simp
qed

lemma generator_after_quiet:
  assumes "i < length (parts 80 80)"
    and "\<forall>c. 2 \<le> c \<and> c \<le> Suc i \<longrightarrow> clock c - clock 1 < 10"
  shows "\<exists>rows. generator_after clock existing i
           = Inr (Some \<lparr>array = pad (parts 80 80 ! i), partition_count = Suc i,
                        last_print_time = clock 1,
                        conn = \<lparr>pending = rows, committed = existing\<rparr>\<rparr>)
         \<and> length rows = Suc i"
  using assms
proof (induction i)
  case 0
  have "parts 80 80 \<noteq> []" by (simp add: parts_nonempty)
  then have "parts 80 80 ! 0 = [80]"
    using hd_parts_self [of 80] by (simp add: hd_conv_nth)
  then have first: "initial 80 = pad (parts 80 80 ! 0)"
    using initial_pad [of 80] by simp
  have "is_partition 80 [80]" by (simp add: is_partition_def)
  then have "\<exists>r. make_row (pad [80]) = Inr r"
    by (rule make_row_pad) simp
  then obtain r where "make_row (pad [80]) = Inr r" ..
  then have "make_row (initial 80) = Inr r"
    using initial_pad [of 80] by simp
  then show ?case
    using first by (simp add: generator_start_def insert_row_def)
next
  case (Suc i)
  then obtain rows where after: "generator_after clock existing i
           = Inr (Some \<lparr>array = pad (parts 80 80 ! i), partition_count = Suc i,
                        last_print_time = clock 1,
                        conn = \<lparr>pending = rows, committed = existing\<rparr>\<rparr>)"
    and len: "length rows = Suc i"
    by auto
  have tr: "transition 80 (pad (parts 80 80 ! i)) = Inr (Next (pad (parts 80 80 ! Suc i)))"
    using transition_parts_nth [of i 80] Suc.prems(1) by simp
  have "parts 80 80 ! Suc i \<in> set (parts 80 80)"
    using Suc.prems(1) by simp
  then have "is_partition 80 (parts 80 80 ! Suc i)"
    using parts_sound by blast
  then have "\<exists>r. make_row (pad (parts 80 80 ! Suc i)) = Inr r"
    by (rule make_row_pad) simp
  then obtain r where row: "make_row (pad (parts 80 80 ! Suc i)) = Inr r" ..
  have quiet: "\<not> clock (Suc i + 1) - clock 1 \<ge> 10"
    using Suc.prems(2) by (simp add: not_le)
  show ?case
    using after len tr row quiet
    by (simp add: generator_pass_def insert_row_def Let_def)
qed

lemma length_parts_80: "length (parts 80 80) = 15796476"
  using p_values(5) by (simp add: length_parts p_eq_pcount)

text \<open>The variables after \<open>i\<close> passes are variables of the loop.\<close>

lemma generator_loop_after:
  "generator_start clock existing = Inr g0 \<Longrightarrow>
   generator_after clock existing i = Inr (Some g) \<Longrightarrow>
   generator_loop clock g0 = generator_loop clock g"
proof (induction i arbitrary: g)
  case 0
  then show ?case by simp
next
  case (Suc i)
  from Suc.prems(2) obtain g' where after: "generator_after clock existing i = Inr (Some g')"
    and pass: "generator_pass clock g' = Inr (Some g)"
    by (auto split: sum.splits option.splits)
  from Suc.IH [OF Suc.prems(1) after]
  have "generator_loop clock g0 = generator_loop clock g'" .
  also have "\<dots> = generator_loop clock g"
    using pass by (subst generator_loop.simps) simp
  finally show ?case .
qed

subsection \<open>The sampler on sorted keys\<close>

lemma length_order_by_random_limit:
  "length (order_by_random_limit rand limit rows) = min limit (length rows)"
  by (simp add: order_by_random_limit_def min.commute)

lemma keyed_rows: "map snd (zip (map rand [0..<length rows]) rows) = rows"
  by (simp add: map_snd_zip)

lemma set_sorted_rows:
  "set (map snd (sort_key fst (zip (map rand [0..<length rows]) rows))) = set rows"
proof -
  define Z where "Z = zip (map rand [0..<length rows]) rows"
  have "set (map snd (sort_key fst Z)) = set (map snd Z)"
    by (simp only: set_map set_sort)
  then show ?thesis by (simp only: Z_def keyed_rows)
qed

lemma order_by_sorted_keys:
  assumes "sorted (map rand [0..<length rows])"
  shows "order_by_random_limit rand limit rows = take limit rows"
proof -
  define Z where "Z = zip (map rand [0..<length rows]) rows"
  have "map fst Z = map rand [0..<length rows]" by (simp add: Z_def)
  with assms have "sort_key fst Z = Z" by (simp only: sort_key_id_if_sorted)
  then show ?thesis
    unfolding order_by_random_limit_def Z_def [symmetric] by (simp add: Z_def keyed_rows)
qed

lemma set_order_by_random_limit:
  "set (order_by_random_limit rand limit rows) \<subseteq> set rows"
  unfolding order_by_random_limit_def
  using set_take_subset set_sorted_rows by fast

lemma set_order_by_random_limit_all:
  "length rows \<le> limit \<Longrightarrow> set (order_by_random_limit rand limit rows) = set rows"
  unfolding order_by_random_limit_def
  using set_sorted_rows [of rand rows] by simp

lemma insort_key_last:
  "\<forall>y \<in> set ys. f y < f x \<Longrightarrow> insort_key f x ys = ys @ [x]"
  by (induction ys) auto

lemma sort_key_descending:
  "sorted_wrt (\<lambda>a b. f b < f a) xs \<Longrightarrow> sort_key f xs = rev xs"
proof (induction xs)
  case Nil
  then show ?case by simp
next
  case (Cons x xs)
  then have "sort_key f xs = rev xs" and "\<forall>y \<in> set (rev xs). f y < f x"
    by simp_all
  then show ?case by (simp add: insort_key_last)
qed

lemma order_by_descending_keys:
  assumes "\<forall>i j. i < j \<and> j < length rows \<longrightarrow> rand j < rand i"
  shows "order_by_random_limit rand limit rows = take limit (rev rows)"
proof -
  define Z where "Z = zip (map rand [0..<length rows]) rows"
  have "sorted_wrt (\<lambda>a b. fst b < fst a) Z"
    using assms by (simp add: sorted_wrt_iff_nth_less Z_def)
  then have "sort_key fst Z = rev Z" by (rule sort_key_descending)
  then show ?thesis
    unfolding order_by_random_limit_def Z_def [symmetric]
    by (simp add: Z_def keyed_rows rev_map [symmetric])
qed

subsection \<open>The updates of a pass from a reached array\<close>

lemma update_of_reachable:
  assumes "0 \<le> N" "N \<le> 80" "reachable N IP"
    and "step_locals N IP = Inr (Some (part_to_modify, new_value, count, remainder))"
  shows "0 \<le> count \<and> 0 \<le> remainder \<and> 0 < new_value
         \<and> int part_to_modify + count + (if remainder > 0 then 1 else 0) \<le> 80
         \<and> update_partition part_to_modify new_value count remainder IP
             = Inr (take part_to_modify IP @ replicate (nat count) new_value
                    @ (if remainder > 0 then [remainder] else [])
                    @ replicate (80 - (part_to_modify + nat count
                                       + (if remainder > 0 then 1 else 0))) 0)"
proof -
  have n: "nat N \<le> 80" using assms by simp
  from assms(1-3) obtain xs where xs: "xs \<in> set (parts (nat N) (nat N))" "IP = pad xs"
    by (rule reachable_nat)
  note fit = parts_fit [OF xs(1) n]
  have ne: "takeWhile (\<lambda>x. 1 < x) xs \<noteq> []"
  proof
    assume "takeWhile (\<lambda>x. 1 < x) xs = []"
    then have "scan_J (pad xs) 0 = Inr 0" using fit(2) by (simp add: scan_J_pad)
    with assms(4) xs(2) show False by (simp add: step_locals_def)
  qed
  then obtain ptm where J: "length (takeWhile (\<lambda>x. 1 < x) xs) = Suc ptm"
    by (cases "length (takeWhile (\<lambda>x. 1 < x) xs)") auto
  define rem where "rem = sum_list (drop ptm xs)"
  define nv where "nv = xs ! ptm - 1"
  note loc = step_locals_pad [OF fit(1) fit(2) J]
  from loc(1) assms(4) xs(2) assms(1)
  have vals: "part_to_modify = ptm" "new_value = int nv" "count = int (rem div nv)"
    "remainder = int (rem mod nv)"
    by (auto simp: rem_def nv_def)
  have nv_pos: "0 < nv" using loc(2) by (simp add: nv_def)
  have "ptm + rem div nv + (if 0 < rem mod nv then 1 else 0) \<le> nat N"
    using loc(4) loc(3) nv_pos loc(5) unfolding rem_def by (rule next_position_le)
  with n have np: "ptm + rem div nv + (if 0 < rem mod nv then 1 else 0) \<le> 80" by simp
  from loc(3) fit(2) np
  have upd: "update_partition ptm (int nv) (int (rem div nv)) (int (rem mod nv)) (pad xs)
         = Inr (pad (take ptm xs @ greedy rem nv))"
    by (rule update_partition_pad)
  have "pad (take ptm xs @ greedy rem nv)
        = take ptm (pad xs) @ replicate (rem div nv) (int nv)
          @ (if 0 < rem mod nv then [int (rem mod nv)] else [])
          @ replicate (80 - (ptm + rem div nv + (if 0 < rem mod nv then 1 else 0))) 0"
    using loc(3) by (simp add: pad_def greedy_def take_map)
  with upd have result: "update_partition ptm (int nv) (int (rem div nv)) (int (rem mod nv)) (pad xs)
        = Inr (take ptm (pad xs) @ replicate (nat (int (rem div nv))) (int nv)
          @ (if int (rem mod nv) > 0 then [int (rem mod nv)] else [])
          @ replicate (80 - (ptm + nat (int (rem div nv))
                             + (if int (rem mod nv) > 0 then 1 else 0))) 0)"
    by simp
  have bound: "int ptm + int (rem div nv) + (if int (rem mod nv) > 0 then 1 else 0) \<le> 80"
    using np by (cases "0 < rem mod nv") simp_all
  have "0 \<le> int (rem div nv)" "0 \<le> int (rem mod nv)" "0 < int nv"
    using nv_pos by simp_all
  with bound result show ?thesis
    unfolding vals xs(2) by blast
qed

subsection \<open>Concrete passes\<close>

text \<open>Concrete passes of the loop for \<open>N = 5\<close>, evaluated.\<close>

lemma transition_5_initial: "transition 5 (initial 5) = Inr (Next ([4, 1] @ replicate 78 0))"
  by code_simp

lemma step_locals_5_initial: "step_locals 5 (initial 5) = Inr (Some (0, 4, 1, 1))"
  by code_simp

lemma reachable_5_second: "reachable 5 ([4, 1] @ replicate 78 0)"
  using reachable.start [of 5] transition_5_initial by (rule reachable.step)

section \<open>The properties\<close>

text \<open>
  C1. For every \<open>N\<close> from 0 to 80, the capacity of the array, the loop returns and has
  written exactly \<open>p N\<close> arrays, where \<open>p N\<close> is the number of partitions of \<open>N\<close>: the
  first is \<open>[N]\<close> with its zeros, no array is written twice, and the arrays written are
  the arrays of the partitions of \<open>N\<close>. And \<open>p 0 = 1\<close>, \<open>p 1 = 1\<close>, \<open>p 5 = 7\<close>,
  \<open>p 10 = 42\<close>, \<open>p 80 = 15796476\<close>.
\<close>

theorem enumeration_count:
  assumes "0 \<le> N" "N \<le> 80"
  shows "(\<exists>ps. enumerate_partitions N = Some (Inr ps) \<and> length ps = p (nat N)
              \<and> hd ps = initial N \<and> distinct ps
              \<and> set ps = pad ` {xs. is_partition (nat N) xs})
         \<and> p 0 = 1 \<and> p 1 = 1 \<and> p 5 = 7 \<and> p 10 = 42 \<and> p 80 = 15796476"
proof -
  let ?ps = "map pad (parts (nat N) (nat N))"
  have "enumerate_partitions N = Some (Inr ?ps)"
    using assms by (rule enumerate_partitions_nat)
  moreover have "length ?ps = p (nat N)"
    by (simp add: length_parts p_eq_pcount)
  moreover have "hd ?ps = initial N"
  proof -
    have "parts (nat N) (nat N) \<noteq> []"
      by (cases "nat N") (simp_all add: parts_nonempty)
    then have "hd ?ps = pad (hd (parts (nat N) (nat N)))"
      by (simp add: hd_map)
    then show ?thesis
      using assms initial_pad [of "nat N"] by (simp add: hd_parts_self)
  qed
  moreover have "distinct ?ps" by (rule distinct_pad_parts)
  moreover have "set ?ps = pad ` {xs. is_partition (nat N) xs}"
    by (simp add: set_parts)
  ultimately show ?thesis using p_values by simp
qed

theorem enumeration_count_witness:
  "(0::int) \<le> 80 \<and> (80::int) \<le> 80
   \<and> (\<exists>ps. enumerate_partitions 80 = Some (Inr ps) \<and> length ps = 15796476)"
  using enumeration_count [of 80] by auto

text \<open>
  C2. For every \<open>N\<close> up to 80, every array the loop passes through, the first one
  and the one after each pass, has nonzero cells that sum to \<open>N\<close> and a nonzero prefix
  that does not increase; the loop returns, and every array it has written satisfies both.
\<close>

theorem invariant_every_step:
  assumes "N \<le> 80"
  shows "(\<forall>IP. reachable N IP \<longrightarrow> partition_invariant N IP)
         \<and> (\<exists>ps. enumerate_partitions N = Some (Inr ps)
                 \<and> (\<forall>IP \<in> set ps. partition_invariant N IP))"
proof (cases "0 \<le> N")
  case True
  have inv: "partition_invariant N (pad xs)" if "xs \<in> set (parts (nat N) (nat N))" for xs
  proof -
    from that have "is_partition (nat N) xs" using parts_sound by blast
    then have "partition_invariant (int (nat N)) (pad xs)" by (rule partition_invariant_pad)
    with True show ?thesis by simp
  qed
  have "partition_invariant N IP" if "reachable N IP" for IP
  proof -
    from True assms that obtain xs where "xs \<in> set (parts (nat N) (nat N))" "IP = pad xs"
      by (rule reachable_nat)
    with inv show ?thesis by simp
  qed
  moreover have "\<forall>IP \<in> set (map pad (parts (nat N) (nat N))). partition_invariant N IP"
    using inv by auto
  ultimately show ?thesis
    using enumerate_partitions_nat [OF True assms] by simp
next
  case False
  then have small: "N \<le> 1" by simp
  have "partition_invariant N IP" if "reachable N IP" for IP
    using reachable_small [OF small that] by (simp add: partition_invariant_initial)
  then show ?thesis
    using enumerate_partitions_small [OF small] by (simp add: partition_invariant_initial)
qed

theorem invariant_every_step_witness:
  "(5::int) \<le> 80 \<and> reachable 5 ([4, 1] @ replicate 78 0)
   \<and> partition_invariant 5 ([4, 1] @ replicate 78 0)"
  using invariant_every_step [of 5] reachable_5_second by simp

text \<open>
  C3. For \<open>N = 5\<close> the loop returns with seven arrays written, whose nonzero parts are
  \<open>[5]\<close>, \<open>[4, 1]\<close>, \<open>[3, 2]\<close>, \<open>[3, 1, 1]\<close>, \<open>[2, 2, 1]\<close>, \<open>[2, 1, 1, 1]\<close>,
  \<open>[1, 1, 1, 1, 1]\<close>, in this order.
\<close>

theorem enumeration_of_5:
  "enumerate_partitions 5
     = Some (Inr [[5] @ replicate 79 0, [4, 1] @ replicate 78 0, [3, 2] @ replicate 78 0,
                  [3, 1, 1] @ replicate 77 0, [2, 2, 1] @ replicate 77 0,
                  [2, 1, 1, 1] @ replicate 76 0, [1, 1, 1, 1, 1] @ replicate 75 0])
   \<and> map non_zero_parts
         [[5] @ replicate 79 0, [4, 1] @ replicate 78 0, [3, 2] @ replicate 78 0,
          [3, 1, 1] @ replicate 77 0, [2, 2, 1] @ replicate 77 0,
          [2, 1, 1, 1] @ replicate 76 0, [1, 1, 1, 1, 1] @ replicate 75 0]
       = [[5], [4, 1], [3, 2], [3, 1, 1], [2, 2, 1], [2, 1, 1, 1], [1, 1, 1, 1, 1]]"
proof -
  have "enumerate_partitions (int 5) = Some (Inr (map pad (parts 5 5)))"
    by (rule enumerate_partitions_eq) simp
  moreover have "map pad (parts 5 5)
      = [[5] @ replicate 79 0, [4, 1] @ replicate 78 0, [3, 2] @ replicate 78 0,
         [3, 1, 1] @ replicate 77 0, [2, 2, 1] @ replicate 77 0,
         [2, 1, 1, 1] @ replicate 76 0, [1, 1, 1, 1, 1] @ replicate 75 0]"
    by code_simp
  moreover have "map non_zero_parts
         [[5] @ replicate 79 0, [4, 1] @ replicate 78 0, [3, 2] @ replicate 78 0,
          [3, 1, 1] @ replicate 77 0, [2, 2, 1] @ replicate 77 0,
          [2, 1, 1, 1] @ replicate 76 0, [1, 1, 1, 1, 1] @ replicate 75 0]
       = [[5], [4, 1], [3, 2], [3, 1, 1], [2, 2, 1], [2, 1, 1, 1], [1, 1, 1, 1, 1 :: int]]"
    by code_simp
  ultimately show ?thesis by simp
qed

text \<open>
  C4. For every \<open>N\<close> up to 80, each pass of the loop from an array it has reached
  yields an array that is strictly smaller in the lexicographic order on the 80 cells, so
  of two arrays written one after the other the later is strictly smaller.
\<close>

theorem consecutive_strictly_decreasing:
  assumes "N \<le> 80"
  shows "(\<forall>IP IP'. reachable N IP \<and> transition N IP = Inr (Next IP') \<longrightarrow> lex_less IP' IP)
         \<and> (\<exists>ps. enumerate_partitions N = Some (Inr ps)
                 \<and> successively (\<lambda>earlier later. lex_less later earlier) ps)"
proof (cases "0 \<le> N")
  case True
  have n: "nat N \<le> 80" using assms by simp
  have "lex_less IP' IP" if r: "reachable N IP" and t: "transition N IP = Inr (Next IP')"
    for IP IP'
  proof -
    from True assms r obtain xs where xs: "xs \<in> set (parts (nat N) (nat N))" "IP = pad xs"
      by (rule reachable_nat)
    note fit = parts_fit [OF xs(1) n]
    from t xs(2) transition_pad [OF fit(1) n fit(2)] True
    obtain ys where "successor xs = Some ys" "IP' = pad ys"
      by (auto split: option.splits)
    with xs(2) show ?thesis by (simp add: successor_lex_less_pad)
  qed
  moreover have "successively (\<lambda>earlier later. lex_less later earlier)
                   (map pad (parts (nat N) (nat N)))"
    unfolding successively_map
    using parts_chain [of "nat N" "nat N"]
    by (rule successively_mono) (simp add: successor_lex_less_pad)
  ultimately show ?thesis
    using enumerate_partitions_nat [OF True assms] by simp
next
  case False
  then have small: "N \<le> 1" by simp
  have "lex_less IP' IP" if r: "reachable N IP" and t: "transition N IP = Inr (Next IP')"
    for IP IP'
    using reachable_small [OF small r] t transition_initial_small [OF small] by simp
  then show ?thesis
    using enumerate_partitions_small [OF small] by simp
qed

theorem consecutive_strictly_decreasing_witness:
  "(5::int) \<le> 80 \<and> reachable 5 (initial 5)
   \<and> transition 5 (initial 5) = Inr (Next ([4, 1] @ replicate 78 0))
   \<and> lex_less ([4, 1] @ replicate 78 0) (initial 5)"
  using consecutive_strictly_decreasing [of 5] reachable.start [of 5] transition_5_initial
  by simp

text \<open>
  C5. For every \<open>N\<close> from 0 to 80, a pass from an array the loop has reached is the
  \<open>break\<close> exactly when the array is \<open>N\<close> ones followed by zeros (for \<open>N = 0\<close> and
  \<open>N = 1\<close> that is the first array); the last array written is that array; and for
  \<open>N = 1\<close> the loop writes the single array of \<open>[1]\<close> and its first pass is the
  \<open>break\<close>.
\<close>

theorem terminal_iff_all_ones:
  assumes "0 \<le> N" "N \<le> 80"
  shows "(\<forall>IP. reachable N IP \<longrightarrow> (transition N IP = Inr Terminal \<longleftrightarrow> IP = all_ones N))
         \<and> (\<exists>ps. enumerate_partitions N = Some (Inr ps) \<and> last ps = all_ones N)
         \<and> enumerate_partitions 1 = Some (Inr [initial 1])
         \<and> transition 1 (initial 1) = Inr Terminal"
proof -
  have n: "nat N \<le> 80" using assms by simp
  have ones: "transition N (all_ones N) = Inr Terminal"
    using transition_pad [of "replicate (nat N) 1" "nat N"] n assms
    by (simp add: all_ones_pad sum_list_replicate successor_ones)
  have "transition N IP = Inr Terminal \<longleftrightarrow> IP = all_ones N" if r: "reachable N IP" for IP
  proof
    assume t: "transition N IP = Inr Terminal"
    from assms r obtain xs where xs: "xs \<in> set (parts (nat N) (nat N))" "IP = pad xs"
      by (rule reachable_nat)
    note fit = parts_fit [OF xs(1) n]
    from t xs(2) transition_pad [OF fit(1) n fit(2)] assms
    have "successor xs = None" by (auto split: option.splits)
    with fit(3) have "xs = replicate (nat N) 1" by (rule successor_None_ones)
    with xs(2) assms show "IP = all_ones N" by (simp add: all_ones_pad)
  next
    assume "IP = all_ones N"
    with ones show "transition N IP = Inr Terminal" by simp
  qed
  moreover have "last (map pad (parts (nat N) (nat N))) = all_ones N"
  proof (cases "nat N = 0")
    case True
    with assms show ?thesis by (simp add: all_ones_pad)
  next
    case False
    then have "parts (nat N) (nat N) \<noteq> []" by (simp add: parts_nonempty)
    with False assms show ?thesis by (simp add: last_map last_parts all_ones_pad)
  qed
  moreover have "enumerate_partitions 1 = Some (Inr [initial 1])"
    using enumerate_partitions_eq [of 1] initial_pad [of 1] by simp
  moreover have "transition 1 (initial 1) = Inr Terminal"
    using transition_pad [of "[1]" 1] initial_pad [of 1] by simp
  ultimately show ?thesis
    using enumerate_partitions_nat [OF assms] by simp
qed

theorem terminal_iff_all_ones_witness:
  "(0::int) \<le> 1 \<and> (1::int) \<le> 80 \<and> reachable 1 (initial 1)
   \<and> transition 1 (initial 1) = Inr Terminal \<and> initial 1 = all_ones 1"
proof -
  have "(0::int) \<le> 1" "(1::int) \<le> 80" by simp_all
  from terminal_iff_all_ones [OF this] reachable.start [of 1] show ?thesis by auto
qed

text \<open>
  C6. What the generator for 80 does where the specification has a commit at every
  multiple of 100000 records: its \<open>commit\<close> inside the loop is reached only in a pass
  that also prints progress, that is when 10 seconds have gone by since the last print.
  With an empty table and a clock that advances 1/50000 of a second per call, the loop
  comes to variables \<open>g1\<close> with a record count of 100000, 100000 rows pending and none
  committed, and its next pass leaves 100001 rows pending and none committed.
\<close>

theorem batch_commit_is_skipped:
  "\<exists>g0 g1 g2.
      generator_start (\<lambda>k. real k / 50000) [] = Inr g0
      \<and> generator_loop (\<lambda>k. real k / 50000) g0 = generator_loop (\<lambda>k. real k / 50000) g1
      \<and> partition_count g1 = 100000 \<and> length (pending (conn g1)) = 100000
      \<and> committed (conn g1) = []
      \<and> generator_pass (\<lambda>k. real k / 50000) g1 = Inr (Some g2)
      \<and> partition_count g2 = 100001 \<and> length (pending (conn g2)) = 100001
      \<and> committed (conn g2) = []"
proof -
  let ?clock = "\<lambda>k. real k / 50000"
  have quiet: "\<forall>c. 2 \<le> c \<and> c \<le> Suc i \<longrightarrow> ?clock c - ?clock 1 < 10"
    if "i \<le> 100000" for i
    using that by (auto simp: field_simps)
  have run: "\<exists>rows. generator_after ?clock [] i
           = Inr (Some \<lparr>array = pad (parts 80 80 ! i), partition_count = Suc i,
                        last_print_time = ?clock 1,
                        conn = \<lparr>pending = rows, committed = []\<rparr>\<rparr>)
         \<and> length rows = Suc i" if "i \<le> 100000" for i
    using that quiet [OF that] by (intro generator_after_quiet) (simp_all add: length_parts_80)
  from run [of 0] obtain g0 where g0: "generator_after ?clock [] 0 = Inr (Some g0)"
    by auto
  then have start: "generator_start ?clock [] = Inr g0"
    by (auto split: sum.splits)
  from run [of 99999] obtain g1 where g1: "generator_after ?clock [] 99999 = Inr (Some g1)"
    and c1: "partition_count g1 = 100000" "length (pending (conn g1)) = 100000"
      "committed (conn g1) = []"
    by auto
  from run [of 100000] obtain g2 where g2: "generator_after ?clock [] 100000 = Inr (Some g2)"
    and c2: "partition_count g2 = 100001" "length (pending (conn g2)) = 100001"
      "committed (conn g2) = []"
    by auto
  have "generator_after ?clock [] (Suc 99999) = generator_pass ?clock g1"
    by (subst generator_after.simps(2)) (simp add: g1)
  moreover have "Suc 99999 = 100000" by simp
  ultimately have pass: "generator_pass ?clock g1 = Inr (Some g2)"
    using g2 by simp
  from start g1 have "generator_loop ?clock g0 = generator_loop ?clock g1"
    by (rule generator_loop_after)
  with start c1 pass c2 show ?thesis by blast
qed

text \<open>
  C7. The sampler never rejects a sample size. Its limit is the constant 100000; it
  returns as many rows as the smaller of 100000 and the size of the population, all of them
  rows of the population, and the whole population when that has at most 100000 rows; the
  table \<open>sampled_partitions\<close> then holds the rows returned.
\<close>

theorem sample_size_is_clamped:
  "length (fst (random_sample_sqlite rand db)) = min 100000 (length (partitions db))
   \<and> set (fst (random_sample_sqlite rand db)) \<subseteq> set (partitions db)
   \<and> (length (partitions db) \<le> 100000 \<longrightarrow>
        set (fst (random_sample_sqlite rand db)) = set (partitions db))
   \<and> sampled_partitions (snd (random_sample_sqlite rand db)) = fst (random_sample_sqlite rand db)"
  by (simp add: random_sample_sqlite_def Let_def length_order_by_random_limit
      set_order_by_random_limit set_order_by_random_limit_all)

theorem sample_size_is_clamped_witness:
  "length (partitions \<lparr>partitions = [([3], 1, 3), ([2, 1], 2, 2), ([1, 1, 1], 3, 1) :: partition_row],
             sampled_partitions = []\<rparr>) \<le> 100000
   \<and> length (fst (random_sample_sqlite (\<lambda>i. - int i)
         \<lparr>partitions = [([3], 1, 3), ([2, 1], 2, 2), ([1, 1, 1], 3, 1) :: partition_row],
          sampled_partitions = []\<rparr>)) = 3"
  using sample_size_is_clamped [of "\<lambda>i. - int i"
     "\<lparr>partitions = [([3], 1, 3), ([2, 1], 2, 2), ([1, 1, 1], 3, 1) :: partition_row],
       sampled_partitions = []\<rparr>"]
  by simp

text \<open>
  The sentence that a sample larger than the population fails with InvalidSampleSize does
  not hold of the code: on the three partitions of 3 as the population, fewer than the
  limit of 100000, the sampler returns the three rows.
\<close>

theorem oversized_sample_is_returned:
  "length [([3], 1, 3), ([2, 1], 2, 2), ([1, 1, 1], 3, 1) :: partition_row] < 100000
   \<and> fst (random_sample_sqlite (\<lambda>i. int i)
          \<lparr>partitions = [([3], 1, 3), ([2, 1], 2, 2), ([1, 1, 1], 3, 1) :: partition_row],
           sampled_partitions = []\<rparr>)
       = [([3], 1, 3), ([2, 1], 2, 2), ([1, 1, 1], 3, 1)]"
  by (simp add: random_sample_sqlite_def Let_def order_by_sorted_keys)

text \<open>
  C8. The sampler takes no seed: its result is determined by the population and by the
  keys the engine draws for the rows. Two runs whose keys agree on the rows of the
  population return the same result; any two runs return equally many rows; and when the
  population has at most 100000 rows, any two runs return the same set of rows.
\<close>

theorem sample_determined_by_keys:
  "((\<forall>i < length (partitions db). rand1 i = rand2 i) \<longrightarrow>
      random_sample_sqlite rand1 db = random_sample_sqlite rand2 db)
   \<and> length (fst (random_sample_sqlite rand1 db)) = length (fst (random_sample_sqlite rand2 db))
   \<and> (length (partitions db) \<le> 100000 \<longrightarrow>
        set (fst (random_sample_sqlite rand1 db)) = set (fst (random_sample_sqlite rand2 db)))"
proof -
  have "order_by_random_limit rand1 100000 (partitions db)
        = order_by_random_limit rand2 100000 (partitions db)"
    if "\<forall>i < length (partitions db). rand1 i = rand2 i"
  proof -
    from that have "map rand1 [0..<length (partitions db)] = map rand2 [0..<length (partitions db)]"
      by simp
    then show ?thesis by (simp only: order_by_random_limit_def)
  qed
  then show ?thesis
    by (simp add: random_sample_sqlite_def Let_def length_order_by_random_limit
        set_order_by_random_limit_all)
qed

theorem sample_determined_by_keys_witness:
  "random_sample_sqlite (\<lambda>i. - int i)
         \<lparr>partitions = [([3], 1, 3), ([2, 1], 2, 2), ([1, 1, 1], 3, 1) :: partition_row],
          sampled_partitions = []\<rparr>
     = random_sample_sqlite (\<lambda>i. if i < 3 then - int i else 5)
         \<lparr>partitions = [([3], 1, 3), ([2, 1], 2, 2), ([1, 1, 1], 3, 1) :: partition_row],
          sampled_partitions = []\<rparr>"
  using sample_determined_by_keys [of
     "\<lparr>partitions = [([3], 1, 3), ([2, 1], 2, 2), ([1, 1, 1], 3, 1) :: partition_row],
       sampled_partitions = []\<rparr>"
     "\<lambda>i. - int i" "\<lambda>i. if i < 3 then - int i else 5"]
  by simp

text \<open>
  The sentence that two runs return the same records does not hold of the code: on a
  population of 100001 rows, keys that rise with the rows select a sample with row 0, and
  keys that fall select one without it.
\<close>

theorem runs_select_different_records:
  "set (fst (random_sample_sqlite (\<lambda>i. int i)
               \<lparr>partitions = [0..<100001], sampled_partitions = []\<rparr>))
   \<noteq> set (fst (random_sample_sqlite (\<lambda>i. - int i)
               \<lparr>partitions = [0..<100001], sampled_partitions = []\<rparr>))"
proof -
  have "sorted (map (\<lambda>i. int i) [0..<length [0..<100001]])"
    by (simp add: sorted_map sorted_wrt_iff_nth_less)
  then have up: "order_by_random_limit (\<lambda>i. int i) 100000 [0..<100001] = take 100000 [0..<100001]"
    by (rule order_by_sorted_keys)
  have down: "order_by_random_limit (\<lambda>i. - int i) 100000 [0..<100001]
              = take 100000 (rev [0..<100001])"
    by (rule order_by_descending_keys) simp
  have "0 \<in> set (take 100000 [0..<100001])"
    by (simp add: take_upt)
  moreover have "0 \<notin> set (take 100000 (rev [0..<100001]))"
    by (simp add: take_rev)
  ultimately show ?thesis
    by (simp only: random_sample_sqlite_def Let_def fst_conv database.simps up down) metis
qed

text \<open>
  C10. For every \<open>N\<close> up to 80 and every array the loop has reached from which the
  pass is not the \<open>break\<close>: \<open>count\<close> and \<open>remainder\<close> are not negative, \<open>new_value\<close>
  is positive, and \<open>part_to_modify + count + (1 if remainder > 0 else 0) \<le> 80\<close>, so all
  writes fall on the cells 0 to 79 and no guard skips one; the array after the updates is
  the cells before \<open>part_to_modify\<close>, then \<open>count\<close> copies of \<open>new_value\<close>, then the
  remainder if it is positive, then zeros.
\<close>

theorem updates_within_bounds:
  assumes "N \<le> 80" "reachable N IP"
    and "step_locals N IP = Inr (Some (part_to_modify, new_value, count, remainder))"
  shows "0 \<le> count \<and> 0 \<le> remainder \<and> 0 < new_value
         \<and> int part_to_modify + count + (if remainder > 0 then 1 else 0) \<le> 80
         \<and> update_partition part_to_modify new_value count remainder IP
             = Inr (take part_to_modify IP @ replicate (nat count) new_value
                    @ (if remainder > 0 then [remainder] else [])
                    @ replicate (80 - (part_to_modify + nat count
                                       + (if remainder > 0 then 1 else 0))) 0)"
proof (cases "0 \<le> N")
  case True
  from True assms show ?thesis by (rule update_of_reachable)
next
  case False
  then have small: "N \<le> 1" by simp
  from reachable_small [OF small assms(2)] step_locals_initial_small [OF small] assms(3)
  show ?thesis by simp
qed

theorem updates_within_bounds_witness:
  "(5::int) \<le> 80 \<and> reachable 5 (initial 5)
   \<and> step_locals 5 (initial 5) = Inr (Some (0, 4, 1, 1))
   \<and> update_partition 0 4 1 1 (initial 5) = Inr ([4, 1] @ replicate 78 0)"
proof -
  have "update_partition 0 4 1 1 (initial 5)
        = Inr (take 0 (initial 5) @ replicate (nat 1) 4 @ (if (1::int) > 0 then [1] else [])
               @ replicate (80 - (0 + nat 1 + (if (1::int) > 0 then 1 else 0))) 0)"
    using updates_within_bounds [of 5 "initial 5" 0 4 1 1]
      reachable.start [of 5] step_locals_5_initial
    by simp
  then show ?thesis
    using reachable.start [of 5] step_locals_5_initial by simp
qed

end
